theory Spec2Isabelle
  imports Main "HOL-Library.Word" "HOL-Library.Code_Target_Nat"
begin

section \<open>EXIF Make/Model extraction from a JPEG prefix (metadataService)\<close>

text \<open>
  The service reads the first 64 KiB of a file into an \<open>ArrayBuffer\<close>, wraps it in a
  \<open>DataView\<close> and walks the JPEG marker segments up to the APP1/Exif segment, then the
  TIFF header and the 0th IFD. The buffer is a list of bytes; offsets are JavaScript
  numbers that stay far below \<open>2^53\<close> (a 32-bit field plus a 16-bit one plus a file
  offset), so they are natural numbers here. Every \<open>DataView\<close> accessor throws
  \<open>RangeError\<close> when the read does not fit into the buffer: the accessors return a sum,
  \<open>Inl\<close> for the exception, and each \<open>try \<dots> catch\<close> of the source is a case
  distinction on that sum.
\<close>

subsection \<open>DataView\<close>

type_synonym byte = "8 word"
type_synonym DataView = "byte list"

datatype error = RangeError

definition bindE :: "error + 'a \<Rightarrow> ('a \<Rightarrow> error + 'b) \<Rightarrow> error + 'b" where
  "bindE m f = (case m of Inl e \<Rightarrow> Inl e | Inr x \<Rightarrow> f x)"

definition byteAt :: "DataView \<Rightarrow> nat \<Rightarrow> nat" where
  "byteAt view off = unat (view ! off)"

definition getUint8 :: "DataView \<Rightarrow> nat \<Rightarrow> error + nat" where
  "getUint8 view off =
     (if off + 1 \<le> length view then Inr (byteAt view off) else Inl RangeError)"

definition getUint16 :: "DataView \<Rightarrow> nat \<Rightarrow> bool \<Rightarrow> error + nat" where
  "getUint16 view off littleEndian =
     (if off + 2 \<le> length view
      then Inr (if littleEndian
                then byteAt view off + 256 * byteAt view (off + 1)
                else 256 * byteAt view off + byteAt view (off + 1))
      else Inl RangeError)"

definition getUint32 :: "DataView \<Rightarrow> nat \<Rightarrow> bool \<Rightarrow> error + nat" where
  "getUint32 view off littleEndian =
     (if off + 4 \<le> length view
      then Inr (if littleEndian
                then byteAt view off + 256 * byteAt view (off + 1)
                     + 65536 * byteAt view (off + 2) + 16777216 * byteAt view (off + 3)
                else 16777216 * byteAt view off + 65536 * byteAt view (off + 1)
                     + 256 * byteAt view (off + 2) + byteAt view (off + 3))
      else Inl RangeError)"

subsection \<open>Strings\<close>

text \<open>
  A string built by \<open>String.fromCharCode\<close> from bytes has code units in \<open>0..255\<close>, which
  is what \<open>char\<close> holds. \<open>String.prototype.trim\<close> removes the ECMAScript white space and
  line terminator code units from both ends; the ones that fit into a byte are TAB, LF,
  VT, FF, CR, SPACE and NO-BREAK SPACE (\<open>0xA0\<close>).
\<close>

definition fromCharCode :: "nat \<Rightarrow> char" where
  "fromCharCode n = char_of n"

definition isWhiteSpace :: "char \<Rightarrow> bool" where
  "isWhiteSpace c = ((of_char c :: nat) \<in> {9, 10, 11, 12, 13, 32, 160})"

definition trim :: "string \<Rightarrow> string" where
  "trim s = rev (dropWhile isWhiteSpace (rev (dropWhile isWhiteSpace s)))"

definition startsWith :: "string \<Rightarrow> string \<Rightarrow> bool" where
  "startsWith s p = (take (length p) s = p)"

subsection \<open>getStringFromEntry\<close>

text \<open>
  The copy loop of \<open>getStringFromEntry\<close> (lines 132 to 139): \<open>i\<close> and \<open>str\<close> are the
  loop variables. The bounds check and the NUL test are the two \<open>break\<close>s.
\<close>

function strLoop :: "DataView \<Rightarrow> nat \<Rightarrow> nat \<Rightarrow> nat \<Rightarrow> string \<Rightarrow> error + string" where
  "strLoop view offset count i str =
     (if i < count then
        (if offset + i \<ge> length view then Inr str
         else (case getUint8 view (offset + i) of
                 Inl e \<Rightarrow> Inl e
               | Inr charCode \<Rightarrow>
                   if charCode = 0 then Inr str
                   else strLoop view offset count (i + 1) (str @ [fromCharCode charCode])))
      else Inr str)"
  by pat_completeness auto
termination
  by (relation "measure (\<lambda>(view, offset, count, i, str). count - i)") auto

declare strLoop.simps [simp del]

definition getStringFromEntry :: "DataView \<Rightarrow> nat \<Rightarrow> nat \<Rightarrow> bool \<Rightarrow> error + string" where
  "getStringFromEntry view entryOffset tiffStart littleEndian =
     bindE (getUint16 view (entryOffset + 2) littleEndian) (\<lambda>type.
     bindE (getUint32 view (entryOffset + 4) littleEndian) (\<lambda>count.
       if type \<noteq> 2 then Inr []
       else
         bindE (getUint32 view (entryOffset + 8) littleEndian) (\<lambda>valueOffset.
           let offset = (if count \<le> 4 then entryOffset + 8 else tiffStart + valueOffset)
           in strLoop view offset count 0 [])))"

subsection \<open>parseExifChunk\<close>

text \<open>
  One pass of the \<open>for\<close> loop over the directory entries (lines 88 to 100). The loop
  state is the counter \<open>i\<close> with the two variables \<open>make\<close> and \<open>model\<close>; a matching
  tag assigns the variable, whatever it held before.
\<close>

definition ifdStep ::
  "DataView \<Rightarrow> nat \<Rightarrow> nat \<Rightarrow> bool \<Rightarrow> nat \<times> string \<times> string \<Rightarrow> error + nat \<times> string \<times> string" where
  "ifdStep view dirStart tiffStart littleEndian st =
     (case st of (i, make, model) \<Rightarrow>
        let entryOffset = dirStart + 2 + i * 12 in
        bindE (getUint16 view entryOffset littleEndian) (\<lambda>tag.
          if tag = 0x010F then
            bindE (getStringFromEntry view entryOffset tiffStart littleEndian)
              (\<lambda>s. Inr (i + 1, s, model))
          else if tag = 0x0110 then
            bindE (getStringFromEntry view entryOffset tiffStart littleEndian)
              (\<lambda>s. Inr (i + 1, make, s))
          else Inr (i + 1, make, model)))"

lemma ifdStep_counter:
  "ifdStep view dirStart tiffStart littleEndian (i, make, model) = Inr (i', make', model')
   \<Longrightarrow> i' = i + 1"
  by (auto simp: ifdStep_def bindE_def Let_def split: sum.splits if_splits)

function ifdLoop ::
  "DataView \<Rightarrow> nat \<Rightarrow> nat \<Rightarrow> bool \<Rightarrow> nat \<Rightarrow> nat \<times> string \<times> string \<Rightarrow> error + nat \<times> string \<times> string" where
  "ifdLoop view dirStart tiffStart littleEndian entries (i, make, model) =
     (if i < entries then
        (case ifdStep view dirStart tiffStart littleEndian (i, make, model) of
           Inl e \<Rightarrow> Inl e
         | Inr st \<Rightarrow> ifdLoop view dirStart tiffStart littleEndian entries st)
      else Inr (i, make, model))"
  by pat_completeness auto
termination
  by (relation "measure (\<lambda>(view, dirStart, tiffStart, littleEndian, entries, i, make, model). entries - i)")
     (auto dest: ifdStep_counter)

declare ifdLoop.simps [simp del]

text \<open>Lines 102 to 112: the result composed from the two variables.\<close>

definition composeDevice :: "string \<Rightarrow> string \<Rightarrow> string option" where
  "composeDevice make model =
     (if make \<noteq> [] \<or> model \<noteq> [] then
        (let cleanMake = trim make; cleanModel = trim model in
         if startsWith cleanModel cleanMake then Some cleanModel
         else Some (trim (cleanMake @ '' '' @ cleanModel)))
      else None)"

text \<open>
  The \<open>try\<close> block of \<open>parseExifChunk\<close> from the magic number on (lines 76 to 112),
  for the byte order that the first two bytes selected; then the whole block, where
  \<open>littleEndian\<close> is the comparison of the mark with \<open>0x4949\<close> and nothing else, and
  the function with its \<open>catch\<close>.
\<close>

definition parseTiff :: "DataView \<Rightarrow> nat \<Rightarrow> bool \<Rightarrow> error + string option" where
  "parseTiff view tiffStart littleEndian =
     bindE (getUint16 view (tiffStart + 2) littleEndian) (\<lambda>magic.
       if magic \<noteq> 0x002A then Inr None
       else
         bindE (getUint32 view (tiffStart + 4) littleEndian) (\<lambda>firstIFDOffset.
           if firstIFDOffset < 0x00000008 then Inr None
           else
             let dirStart = tiffStart + firstIFDOffset in
             bindE (getUint16 view dirStart littleEndian) (\<lambda>entries.
             bindE (ifdLoop view dirStart tiffStart littleEndian entries (0, [], []))
               (\<lambda>(i, make, model). Inr (composeDevice make model)))))"

definition parseExifChunkTry :: "DataView \<Rightarrow> nat \<Rightarrow> error + string option" where
  "parseExifChunkTry view tiffStart =
     bindE (getUint16 view tiffStart False) (\<lambda>byteOrder.
       let littleEndian = (byteOrder = 0x4949)
       in parseTiff view tiffStart littleEndian)"

definition parseExifChunk :: "DataView \<Rightarrow> nat \<Rightarrow> string option" where
  "parseExifChunk view tiffStart =
     (case parseExifChunkTry view tiffStart of Inl e \<Rightarrow> None | Inr r \<Rightarrow> r)"

subsection \<open>getExifDeviceData\<close>

text \<open>
  One pass of the marker loop at \<open>offset\<close> (lines 29 to 56): it leaves the loop (\<open>Break\<close>), resolves the
  promise (\<open>Resolve\<close>) or goes on at a new offset (\<open>Continue\<close>).
\<close>

datatype step = Break | Resolve "string option" | Continue nat

definition scanStep :: "DataView \<Rightarrow> nat \<Rightarrow> error + step" where
  "scanStep view offset =
     bindE (getUint8 view offset) (\<lambda>b.
       if b \<noteq> 0xFF then Inr Break
       else
         bindE (getUint8 view (offset + 1)) (\<lambda>marker.
           if marker = 0xE1 then
             bindE (getUint16 view (offset + 2) False) (\<lambda>chunkLength.
             bindE (getUint32 view (offset + 4) False) (\<lambda>signature.
               if signature = 0x45786966 then Inr (Resolve (parseExifChunk view (offset + 10)))
               else Inr (Continue (offset + (2 + chunkLength)))))
           else if marker = 0xDA then Inr Break
           else
             bindE (getUint16 view (offset + 2) False) (\<lambda>chunkLength.
               Inr (Continue (offset + (2 + chunkLength))))))"

lemma scanStep_advances:
  "scanStep view offset = Inr (Continue offset') \<Longrightarrow> offset + 2 \<le> offset'"
  by (auto simp: scanStep_def bindE_def split: sum.splits if_splits)

function scanLoop :: "DataView \<Rightarrow> nat \<Rightarrow> error + string option" where
  "scanLoop view offset =
     (if offset < length view then
        (case scanStep view offset of
           Inl e \<Rightarrow> Inl e
         | Inr Break \<Rightarrow> Inr None
         | Inr (Resolve result) \<Rightarrow> Inr result
         | Inr (Continue offset') \<Rightarrow> scanLoop view offset')
      else Inr None)"
  by pat_completeness auto
termination
  by (relation "measure (\<lambda>(view, offset). length view - offset)")
     (auto dest: scanStep_advances)

declare scanLoop.simps [simp del]

text \<open>
  The offsets that the marker loop visits: \<open>scanReaches view a b\<close> when the loop, being
  at offset \<open>a\<close>, comes to offset \<open>b\<close> after zero or more passes that skip a segment.
\<close>

inductive scanReaches :: "DataView \<Rightarrow> nat \<Rightarrow> nat \<Rightarrow> bool" for view where
  start: "scanReaches view offset offset"
| step: "offset < length view \<Longrightarrow> scanStep view offset = Inr (Continue mid)
         \<Longrightarrow> scanReaches view mid offset' \<Longrightarrow> scanReaches view offset offset'"

text \<open>The \<open>try\<close> block of the \<open>onload\<close> handler, and the handler with its \<open>catch\<close>.\<close>

definition onloadTry :: "DataView \<Rightarrow> error + string option" where
  "onloadTry view =
     bindE (getUint16 view 0 False) (\<lambda>soi.
       if soi \<noteq> 0xFFD8 then Inr None else scanLoop view 2)"

definition onload :: "DataView \<Rightarrow> string option" where
  "onload view = (case onloadTry view of Inl e \<Rightarrow> None | Inr r \<Rightarrow> r)"

text \<open>
  A \<open>File\<close> is its media type and its bytes. The promise is resolved once, with the value
  of the handler on the first 65536 bytes; a failed read (\<open>reader.onerror\<close>) is outside
  this model.
\<close>

datatype File = File (ftype: string) (content: "byte list")

definition getExifDeviceData :: "File \<Rightarrow> string option" where
  "getExifDeviceData file =
     (if ftype file \<noteq> ''image/jpeg'' \<and> ftype file \<noteq> ''image/jpg'' then None
      else onload (take 65536 (content file)))"

subsection \<open>Iteration bounds\<close>

text \<open>
  The two loops again with a budget of iterations: \<open>None\<close> when the budget is used up
  before the loop ends.
\<close>

fun scanLoopFuel :: "nat \<Rightarrow> DataView \<Rightarrow> nat \<Rightarrow> (error + string option) option" where
  "scanLoopFuel fuel view offset =
     (if offset < length view then
        (case fuel of
           0 \<Rightarrow> None
         | Suc fuel' \<Rightarrow>
            (case scanStep view offset of
               Inl e \<Rightarrow> Some (Inl e)
             | Inr Break \<Rightarrow> Some (Inr None)
             | Inr (Resolve result) \<Rightarrow> Some (Inr result)
             | Inr (Continue offset') \<Rightarrow> scanLoopFuel fuel' view offset'))
      else Some (Inr None))"

fun ifdLoopFuel ::
  "nat \<Rightarrow> DataView \<Rightarrow> nat \<Rightarrow> nat \<Rightarrow> bool \<Rightarrow> nat \<Rightarrow> nat \<times> string \<times> string
     \<Rightarrow> (error + nat \<times> string \<times> string) option" where
  "ifdLoopFuel fuel view dirStart tiffStart littleEndian entries (i, make, model) =
     (if i < entries then
        (case fuel of
           0 \<Rightarrow> None
         | Suc fuel' \<Rightarrow>
            (case ifdStep view dirStart tiffStart littleEndian (i, make, model) of
               Inl e \<Rightarrow> Some (Inl e)
             | Inr st \<Rightarrow> ifdLoopFuel fuel' view dirStart tiffStart littleEndian entries st))
      else Some (Inr (i, make, model)))"

subsection \<open>Directory positions\<close>

text \<open>The largest index below \<open>n\<close> that satisfies \<open>P\<close>, if there is one.\<close>

primrec lastIndex :: "(nat \<Rightarrow> bool) \<Rightarrow> nat \<Rightarrow> nat option" where
  "lastIndex P 0 = None"
| "lastIndex P (Suc n) = (if P n then Some n else lastIndex P n)"

definition entryOffsetOf :: "nat \<Rightarrow> nat \<Rightarrow> nat" where
  "entryOffsetOf dirStart i = dirStart + 2 + i * 12"

definition hasTag :: "DataView \<Rightarrow> nat \<Rightarrow> bool \<Rightarrow> nat \<Rightarrow> nat \<Rightarrow> bool" where
  "hasTag view dirStart littleEndian tag i =
     (getUint16 view (entryOffsetOf dirStart i) littleEndian = Inr tag)"

subsection \<open>Sample buffers\<close>

text \<open>
  Two complete JPEG prefixes (a big-endian and a little-endian TIFF block), a JPEG with an
  XMP-like APP1 segment before the Exif one, the same after an APP0 segment, and TIFF
  blocks that start at offset 0: two Make entries (with an entry count of 1 and of 2), a
  byte-order mark of two zero bytes, a Make of one space, a Make of type 3 (SHORT),
  inline and pointed-to strings, a string count beyond the end of the buffer, an entry
  count beyond it, a magic number of \<open>0x002B\<close> and a first-IFD offset of 7. Then an
  ASCII Make followed by a Make of type 3 (with an entry count of 1 and of 2), the
  overrunning string count and the zero byte-order mark inside complete JPEG prefixes, a
  marker stream with a zero byte where a marker should start, and a segment whose
  length runs far beyond the buffer.
\<close>

definition canonJpeg :: DataView where
  "canonJpeg =
    [0xFF, 0xD8, 0xFF, 0xE1, 0x00, 0x3D, 0x45, 0x78, 0x69, 0x66, 0x00, 0x00, 0x4D, 0x4D, 0x00,
     0x2A, 0x00, 0x00, 0x00, 0x08, 0x00, 0x02, 0x01, 0x0F, 0x00, 0x02, 0x00, 0x00, 0x00, 0x06,
     0x00, 0x00, 0x00, 0x22, 0x01, 0x10, 0x00, 0x02, 0x00, 0x00, 0x00, 0x0D, 0x00, 0x00, 0x00,
     0x28, 0x43, 0x61, 0x6E, 0x6F, 0x6E, 0x00, 0x43, 0x61, 0x6E, 0x6F, 0x6E, 0x20, 0x45, 0x4F,
     0x53, 0x20, 0x52, 0x35, 0x00, 0xFF, 0xDA]"

definition appleJpeg :: DataView where
  "appleJpeg =
    [0xFF, 0xD8, 0xFF, 0xE1, 0x00, 0x3E, 0x45, 0x78, 0x69, 0x66, 0x00, 0x00, 0x49, 0x49, 0x2A,
     0x00, 0x08, 0x00, 0x00, 0x00, 0x02, 0x00, 0x0F, 0x01, 0x02, 0x00, 0x06, 0x00, 0x00, 0x00,
     0x22, 0x00, 0x00, 0x00, 0x10, 0x01, 0x02, 0x00, 0x0E, 0x00, 0x00, 0x00, 0x28, 0x00, 0x00,
     0x00, 0x41, 0x70, 0x70, 0x6C, 0x65, 0x00, 0x69, 0x50, 0x68, 0x6F, 0x6E, 0x65, 0x20, 0x31,
     0x34, 0x20, 0x50, 0x72, 0x6F, 0x00, 0xFF, 0xDA]"

definition xmpThenExifJpeg :: DataView where
  "xmpThenExifJpeg =
    [0xFF, 0xD8, 0xFF, 0xE1, 0x00, 0x0B, 0x68, 0x74, 0x74, 0x70, 0x3A, 0x2F, 0x2F, 0x6E, 0x73,
     0xFF, 0xE1, 0x00, 0x1E, 0x45, 0x78, 0x69, 0x66, 0x00, 0x00, 0x4D, 0x4D, 0x00, 0x2A, 0x00,
     0x00, 0x00, 0x08, 0x00, 0x01, 0x01, 0x10, 0x00, 0x02, 0x00, 0x00, 0x00, 0x03, 0x58, 0x31,
     0x00, 0x00]"

definition app0XmpExifJpeg :: DataView where
  "app0XmpExifJpeg =
    [0xFF, 0xD8, 0xFF, 0xE0, 0x00, 0x04, 0x4A, 0x46, 0xFF, 0xE1, 0x00, 0x0B, 0x68, 0x74, 0x74,
     0x70, 0x3A, 0x2F, 0x2F, 0x6E, 0x73, 0xFF, 0xE1, 0x00, 0x1E, 0x45, 0x78, 0x69, 0x66, 0x00,
     0x00, 0x4D, 0x4D, 0x00, 0x2A, 0x00, 0x00, 0x00, 0x08, 0x00, 0x01, 0x01, 0x10, 0x00, 0x02,
     0x00, 0x00, 0x00, 0x03, 0x58, 0x31, 0x00, 0x00]"

definition oneMakeTiff :: DataView where
  "oneMakeTiff =
    [0x4D, 0x4D, 0x00, 0x2A, 0x00, 0x00, 0x00, 0x08, 0x00, 0x01, 0x01, 0x0F, 0x00, 0x02, 0x00,
     0x00, 0x00, 0x02, 0x41, 0x00, 0x00, 0x00, 0x01, 0x0F, 0x00, 0x02, 0x00, 0x00, 0x00, 0x02,
     0x42, 0x00, 0x00, 0x00]"

definition twoMakeTiff :: DataView where
  "twoMakeTiff =
    [0x4D, 0x4D, 0x00, 0x2A, 0x00, 0x00, 0x00, 0x08, 0x00, 0x02, 0x01, 0x0F, 0x00, 0x02, 0x00,
     0x00, 0x00, 0x02, 0x41, 0x00, 0x00, 0x00, 0x01, 0x0F, 0x00, 0x02, 0x00, 0x00, 0x00, 0x02,
     0x42, 0x00, 0x00, 0x00]"

definition noOrderTiff :: DataView where
  "noOrderTiff =
    [0x00, 0x00, 0x00, 0x2A, 0x00, 0x00, 0x00, 0x08, 0x00, 0x01, 0x01, 0x10, 0x00, 0x02, 0x00,
     0x00, 0x00, 0x03, 0x58, 0x31, 0x00, 0x00]"

definition blankMakeTiff :: DataView where
  "blankMakeTiff =
    [0x49, 0x49, 0x2A, 0x00, 0x08, 0x00, 0x00, 0x00, 0x01, 0x00, 0x0F, 0x01, 0x02, 0x00, 0x02,
     0x00, 0x00, 0x00, 0x20, 0x00, 0x00, 0x00]"

definition shortMakeTiff :: DataView where
  "shortMakeTiff =
    [0x4D, 0x4D, 0x00, 0x2A, 0x00, 0x00, 0x00, 0x08, 0x00, 0x02, 0x01, 0x0F, 0x00, 0x03, 0x00,
     0x00, 0x00, 0x01, 0x41, 0x42, 0x00, 0x00, 0x01, 0x10, 0x00, 0x02, 0x00, 0x00, 0x00, 0x03,
     0x58, 0x31, 0x00, 0x00]"

definition inlineTiff :: DataView where
  "inlineTiff =
    [0x4D, 0x4D, 0x00, 0x2A, 0x00, 0x00, 0x00, 0x08, 0x00, 0x02, 0x01, 0x0F, 0x00, 0x02, 0x00,
     0x00, 0x00, 0x04, 0x41, 0x42, 0x43, 0x44, 0x01, 0x10, 0x00, 0x02, 0x00, 0x00, 0x00, 0x05,
     0x00, 0x00, 0x00, 0x22, 0x45, 0x46, 0x47, 0x48, 0x49, 0x4A]"

definition overrunTiff :: DataView where
  "overrunTiff =
    [0x4D, 0x4D, 0x00, 0x2A, 0x00, 0x00, 0x00, 0x08, 0x00, 0x01, 0x01, 0x10, 0x00, 0x02, 0x00,
     0x00, 0x00, 0x09, 0x00, 0x00, 0x00, 0x16, 0x45, 0x46, 0x47]"


definition badMagicTiff :: DataView where
  "badMagicTiff =
    [0x4D, 0x4D, 0x00, 0x2B, 0x00, 0x00, 0x00, 0x08, 0x00, 0x01, 0x01, 0x10, 0x00, 0x02, 0x00,
     0x00, 0x00, 0x03, 0x58, 0x31, 0x00, 0x00]"

definition lowOffsetTiff :: DataView where
  "lowOffsetTiff =
    [0x4D, 0x4D, 0x00, 0x2A, 0x00, 0x00, 0x00, 0x07, 0x00, 0x01, 0x01, 0x10, 0x00, 0x02, 0x00,
     0x00, 0x00, 0x03, 0x58, 0x31, 0x00, 0x00]"

definition asciiMakeTiff :: DataView where
  "asciiMakeTiff =
    [0x4D, 0x4D, 0x00, 0x2A, 0x00, 0x00, 0x00, 0x08, 0x00, 0x01, 0x01, 0x0F, 0x00, 0x02, 0x00,
     0x00, 0x00, 0x02, 0x41, 0x00, 0x00, 0x00, 0x01, 0x0F, 0x00, 0x03, 0x00, 0x00, 0x00, 0x01,
     0x41, 0x42, 0x00, 0x00]"

definition asciiThenShortMakeTiff :: DataView where
  "asciiThenShortMakeTiff =
    [0x4D, 0x4D, 0x00, 0x2A, 0x00, 0x00, 0x00, 0x08, 0x00, 0x02, 0x01, 0x0F, 0x00, 0x02, 0x00,
     0x00, 0x00, 0x02, 0x41, 0x00, 0x00, 0x00, 0x01, 0x0F, 0x00, 0x03, 0x00, 0x00, 0x00, 0x01,
     0x41, 0x42, 0x00, 0x00]"





section \<open>Properties\<close>

subsection \<open>The directory loop\<close>

lemma lastIndex_None: "lastIndex P n = None \<longleftrightarrow> (\<forall>j<n. \<not> P j)"
  by (induction n) (auto simp: less_Suc_eq)

lemma lastIndex_Some:
  "lastIndex P n = Some j \<longleftrightarrow> j < n \<and> P j \<and> (\<forall>k. j < k \<and> k < n \<longrightarrow> \<not> P k)"
proof (induction n)
  case 0
  then show ?case by simp
next
  case (Suc n)
  show ?case
  proof (cases "P n")
    case True
    then show ?thesis
      by (auto simp: less_Suc_eq)
  next
    case False
    then show ?thesis using Suc
      by (auto simp: less_Suc_eq)
  qed
qed

lemma ifdStep_cases:
  assumes "ifdStep view dirStart tiffStart le (i, make, model) = Inr st"
  obtains tag where "getUint16 view (entryOffsetOf dirStart i) le = Inr tag"
    and "tag = 0x010F \<longrightarrow> getStringFromEntry view (entryOffsetOf dirStart i) tiffStart le = Inr (fst (snd st))"
    and "tag \<noteq> 0x010F \<longrightarrow> fst (snd st) = make"
    and "tag \<noteq> 0x010F \<and> tag = 0x0110 \<longrightarrow> getStringFromEntry view (entryOffsetOf dirStart i) tiffStart le = Inr (snd (snd st))"
    and "tag = 0x010F \<or> tag \<noteq> 0x0110 \<longrightarrow> snd (snd st) = model"
    and "fst st = i + 1"
  using assms
  by (auto simp: ifdStep_def bindE_def Let_def entryOffsetOf_def split: sum.splits if_splits)

lemma ifdLoop_done:
  "\<not> i < entries \<Longrightarrow>
   ifdLoop view dirStart tiffStart le entries (i, make, model) = Inr (i, make, model)"
  by (subst ifdLoop.simps) simp

lemma ifdLoop_unroll:
  assumes "ifdLoop view dirStart tiffStart le entries (i, make, model) = Inr r"
    and "i < entries"
  obtains mk2 md2 where
    "ifdStep view dirStart tiffStart le (i, make, model) = Inr (i + 1, mk2, md2)"
    and "ifdLoop view dirStart tiffStart le entries (i + 1, mk2, md2) = Inr r"
proof -
  from assms have
    "(case ifdStep view dirStart tiffStart le (i, make, model) of
        Inl e \<Rightarrow> Inl e
      | Inr st \<Rightarrow> ifdLoop view dirStart tiffStart le entries st) = Inr r"
    by (subst (asm) ifdLoop.simps) simp
  then obtain st where
    st: "ifdStep view dirStart tiffStart le (i, make, model) = Inr st"
    and rest: "ifdLoop view dirStart tiffStart le entries st = Inr r"
    by (auto split: sum.splits)
  obtain i2 mk2 md2 where st_eq: "st = (i2, mk2, md2)" by (cases st) auto
  with st have "i2 = i + 1" by (auto dest: ifdStep_counter)
  with st rest st_eq that show thesis by simp
qed

lemma ifdLoop_last_make:
  assumes "ifdLoop view dirStart tiffStart le entries (i, make, model) = Inr (i', make', model')"
    and "i \<le> entries"
  shows "(case lastIndex (hasTag view dirStart le 0x010F) entries of
            None \<Rightarrow> Inr make
          | Some j \<Rightarrow> if j < i then Inr make
                      else getStringFromEntry view (entryOffsetOf dirStart j) tiffStart le)
         = Inr make'"
  using assms
proof (induction "entries - i" arbitrary: i make model)
  case 0
  then have "make' = make" by (simp add: ifdLoop_done)
  moreover from 0 have "i = entries" by simp
  ultimately show ?case
    by (auto simp: lastIndex_Some split: option.splits)
next
  case (Suc n)
  then have lt: "i < entries" by simp
  from Suc.prems(1) lt obtain mk2 md2 where
    st: "ifdStep view dirStart tiffStart le (i, make, model) = Inr (i + 1, mk2, md2)"
    and rest: "ifdLoop view dirStart tiffStart le entries (i + 1, mk2, md2) = Inr (i', make', model')"
    by (rule ifdLoop_unroll)
  from st obtain tag where
    tag: "getUint16 view (entryOffsetOf dirStart i) le = Inr tag"
    and md: "tag = 0x010F \<longrightarrow>
             getStringFromEntry view (entryOffsetOf dirStart i) tiffStart le = Inr mk2"
    and md': "tag \<noteq> 0x010F \<longrightarrow> mk2 = make"
    by (rule ifdStep_cases) auto
  have IH: "(case lastIndex (hasTag view dirStart le 0x010F) entries of
            None \<Rightarrow> Inr mk2
          | Some j \<Rightarrow> if j < i + 1 then Inr mk2
                      else getStringFromEntry view (entryOffsetOf dirStart j) tiffStart le)
         = Inr make'"
    using Suc.hyps(1)[OF _ rest] Suc.hyps(2) lt by simp
  show ?case
  proof (cases "tag = 0x010F")
    case t: True
    then have P: "hasTag view dirStart le 0x010F i" using tag by (simp add: hasTag_def)
    with lt obtain j where j: "lastIndex (hasTag view dirStart le 0x010F) entries = Some j"
      by (cases "lastIndex (hasTag view dirStart le 0x010F) entries") (auto simp: lastIndex_None)
    then have "i \<le> j" using P lt by (auto simp: lastIndex_Some not_less [symmetric])
    then show ?thesis using IH j md t
      by (cases "j = i") auto
  next
    case f: False
    then have P: "\<not> hasTag view dirStart le 0x010F i" using tag by (simp add: hasTag_def)
    show ?thesis
    proof (cases "lastIndex (hasTag view dirStart le 0x010F) entries")
      case None
      then show ?thesis using IH md' f by simp
    next
      case (Some j)
      then have "j \<noteq> i" using P by (auto simp: lastIndex_Some)
      then show ?thesis using IH md' f Some by (auto simp: less_Suc_eq)
    qed
  qed
qed

lemma ifdLoop_last_model:
  assumes "ifdLoop view dirStart tiffStart le entries (i, make, model) = Inr (i', make', model')"
    and "i \<le> entries"
  shows "(case lastIndex (hasTag view dirStart le 0x0110) entries of
            None \<Rightarrow> Inr model
          | Some j \<Rightarrow> if j < i then Inr model
                      else getStringFromEntry view (entryOffsetOf dirStart j) tiffStart le)
         = Inr model'"
  using assms
proof (induction "entries - i" arbitrary: i make model)
  case 0
  then have "model' = model" by (simp add: ifdLoop_done)
  moreover from 0 have "i = entries" by simp
  ultimately show ?case
    by (auto simp: lastIndex_Some split: option.splits)
next
  case (Suc n)
  then have lt: "i < entries" by simp
  from Suc.prems(1) lt obtain mk2 md2 where
    st: "ifdStep view dirStart tiffStart le (i, make, model) = Inr (i + 1, mk2, md2)"
    and rest: "ifdLoop view dirStart tiffStart le entries (i + 1, mk2, md2) = Inr (i', make', model')"
    by (rule ifdLoop_unroll)
  from st obtain tag where
    tag: "getUint16 view (entryOffsetOf dirStart i) le = Inr tag"
    and md: "tag \<noteq> 0x010F \<and> tag = 0x0110 \<longrightarrow>
             getStringFromEntry view (entryOffsetOf dirStart i) tiffStart le = Inr md2"
    and md': "tag = 0x010F \<or> tag \<noteq> 0x0110 \<longrightarrow> md2 = model"
    by (rule ifdStep_cases) auto
  have IH: "(case lastIndex (hasTag view dirStart le 0x0110) entries of
            None \<Rightarrow> Inr md2
          | Some j \<Rightarrow> if j < i + 1 then Inr md2
                      else getStringFromEntry view (entryOffsetOf dirStart j) tiffStart le)
         = Inr model'"
    using Suc.hyps(1)[OF _ rest] Suc.hyps(2) lt by simp
  show ?case
  proof (cases "tag = 0x0110")
    case t: True
    then have P: "hasTag view dirStart le 0x0110 i" using tag by (simp add: hasTag_def)
    with lt obtain j where j: "lastIndex (hasTag view dirStart le 0x0110) entries = Some j"
      by (cases "lastIndex (hasTag view dirStart le 0x0110) entries") (auto simp: lastIndex_None)
    then have "i \<le> j" using P lt by (auto simp: lastIndex_Some not_less [symmetric])
    then show ?thesis using IH j md t
      by (cases "j = i") auto
  next
    case f: False
    then have P: "\<not> hasTag view dirStart le 0x0110 i" using tag by (simp add: hasTag_def)
    show ?thesis
    proof (cases "lastIndex (hasTag view dirStart le 0x0110) entries")
      case None
      then show ?thesis using IH md' f by simp
    next
      case (Some j)
      then have "j \<noteq> i" using P by (auto simp: lastIndex_Some)
      then show ?thesis using IH md' f Some by (auto simp: less_Suc_eq)
    qed
  qed
qed

lemma ifdLoop_counter:
  assumes "ifdLoop view dirStart tiffStart le entries (i, make, model) = Inr (i', make', model')"
    and "i \<le> entries"
  shows "i' = entries"
  using assms
proof (induction "entries - i" arbitrary: i make model)
  case 0
  then show ?case by (simp add: ifdLoop_done)
next
  case (Suc n)
  then have lt: "i < entries" by simp
  from Suc.prems(1) lt obtain mk2 md2 where
    rest: "ifdLoop view dirStart tiffStart le entries (i + 1, mk2, md2) = Inr (i', make', model')"
    by (rule ifdLoop_unroll)
  show ?case using Suc.hyps(1)[OF _ rest] Suc.hyps(2) lt by simp
qed

lemma ifdLoop_reads:
  assumes "ifdLoop view dirStart tiffStart le entries (i, make, model) = Inr r"
    and "i \<le> j" and "j < entries"
  shows "\<exists>tag. getUint16 view (entryOffsetOf dirStart j) le = Inr tag \<and>
           (tag = 0x010F \<or> tag = 0x0110 \<longrightarrow>
              (\<exists>s. getStringFromEntry view (entryOffsetOf dirStart j) tiffStart le = Inr s))"
  using assms
proof (induction "j - i" arbitrary: i make model)
  case 0
  then have lt: "i < entries" and ij: "j = i" by simp_all
  from "0.prems"(1) lt obtain mk2 md2 where
    st: "ifdStep view dirStart tiffStart le (i, make, model) = Inr (i + 1, mk2, md2)"
    by (rule ifdLoop_unroll)
  from st show ?case unfolding ij
    by (rule ifdStep_cases) auto
next
  case (Suc n)
  then have lt: "i < entries" by simp
  from Suc.prems(1) lt obtain mk2 md2 where
    rest: "ifdLoop view dirStart tiffStart le entries (i + 1, mk2, md2) = Inr r"
    by (rule ifdLoop_unroll)
  show ?case using Suc.hyps(1)[OF _ rest] Suc.hyps(2) Suc.prems by simp
qed

lemma getStringFromEntry_nonascii:
  assumes "getStringFromEntry view entryOffset tiffStart le = Inr s"
    and "getUint16 view (entryOffset + 2) le \<noteq> Inr 2"
  shows "s = []"
  using assms
  by (auto simp: getStringFromEntry_def bindE_def split: sum.splits if_splits)

subsection \<open>Trimming and composition\<close>

lemma dropWhile_last: "dropWhile P xs \<noteq> [] \<Longrightarrow> last (dropWhile P xs) = last xs"
  by (induction xs) (auto split: if_splits)

lemma dropWhile_hd: "dropWhile P xs \<noteq> [] \<Longrightarrow> \<not> P (hd (dropWhile P xs))"
  by (simp add: hd_dropWhile)

lemma trim_ends:
  assumes "trim s \<noteq> []"
  shows "\<not> isWhiteSpace (hd (trim s)) \<and> \<not> isWhiteSpace (last (trim s))"
proof -
  let ?a = "dropWhile isWhiteSpace s"
  let ?b = "dropWhile isWhiteSpace (rev ?a)"
  from assms have b: "?b \<noteq> []" by (simp add: trim_def)
  have a: "?a \<noteq> []"
  proof
    assume "?a = []"
    then have "?b = []" by (simp only: rev.simps(1) dropWhile.simps(1))
    with b show False by contradiction
  qed
  have "last ?b = last (rev ?a)" using b by (rule dropWhile_last)
  also have "\<dots> = hd ?a" using a by (simp add: last_rev)
  finally have "\<not> isWhiteSpace (last ?b)" using a by (simp add: hd_dropWhile)
  moreover have "\<not> isWhiteSpace (hd ?b)" using b by (rule dropWhile_hd)
  ultimately show ?thesis using b by (simp add: trim_def hd_rev last_rev)
qed

lemma trim_fixed:
  assumes "t \<noteq> []" "\<not> isWhiteSpace (hd t)" "\<not> isWhiteSpace (last t)"
  shows "trim t = t"
proof -
  have "dropWhile isWhiteSpace t = t" using assms by (cases t) auto
  moreover have "dropWhile isWhiteSpace (rev t) = rev t"
    using assms by (cases "rev t") (auto simp: hd_rev [symmetric])
  ultimately show ?thesis by (simp add: trim_def)
qed

lemma isWhiteSpace_space: "isWhiteSpace CHR '' ''"
  by (simp add: isWhiteSpace_def)

lemma trim_joined:
  assumes a: "a \<noteq> []" "\<not> isWhiteSpace (hd a)" "\<not> isWhiteSpace (last a)"
    and b: "b \<noteq> []" "\<not> isWhiteSpace (last b)"
  shows "trim (a @ '' '' @ b) = a @ '' '' @ b"
  using assms by (intro trim_fixed) auto

lemma trim_trailing_space:
  assumes a: "a \<noteq> []" "\<not> isWhiteSpace (hd a)" "\<not> isWhiteSpace (last a)"
  shows "trim (a @ '' '') = a"
proof -
  have "dropWhile isWhiteSpace (a @ '' '') = a @ '' ''" using a by (cases a) auto
  moreover have "dropWhile isWhiteSpace (rev a) = rev a"
    using a by (cases "rev a") (auto simp: hd_rev [symmetric])
  ultimately show ?thesis by (simp add: trim_def isWhiteSpace_space)
qed

lemma composeDevice_rule:
  assumes "make \<noteq> [] \<or> model \<noteq> []"
  shows "composeDevice make model =
     Some (if startsWith (trim model) (trim make) then trim model
           else if trim model = [] then trim make
           else trim make @ '' '' @ trim model)"
proof (cases "startsWith (trim model) (trim make)")
  case True
  with assms show ?thesis by (simp add: composeDevice_def Let_def)
next
  case False
  then have mk: "trim make \<noteq> []" by (auto simp: startsWith_def)
  note e = trim_ends [OF mk]
  show ?thesis
  proof (cases "trim model = []")
    case True
    with False assms mk e show ?thesis
      by (simp add: composeDevice_def Let_def trim_trailing_space)
  next
    case md: False
    note e' = trim_ends [OF md]
    from False assms mk e md e' show ?thesis
      by (simp add: composeDevice_def Let_def trim_joined del: append.simps)
  qed
qed

subsection \<open>The TIFF header\<close>

lemma parseExifChunk_eq:
  assumes "getUint16 view tiffStart False = Inr byteOrder"
    and "getUint16 view (tiffStart + 2) (byteOrder = 0x4949) = Inr 0x002A"
    and "getUint32 view (tiffStart + 4) (byteOrder = 0x4949) = Inr firstIFDOffset"
    and "8 \<le> firstIFDOffset"
    and "getUint16 view (tiffStart + firstIFDOffset) (byteOrder = 0x4949) = Inr entries"
    and "ifdLoop view (tiffStart + firstIFDOffset) tiffStart (byteOrder = 0x4949) entries (0, [], [])
           = Inr (i, make, model)"
  shows "parseExifChunk view tiffStart = composeDevice make model"
  using assms
  by (simp add: parseExifChunk_def parseExifChunkTry_def parseTiff_def bindE_def Let_def)

lemma parseExifChunk_SomeD:
  assumes "parseExifChunk view tiffStart = Some s"
  obtains byteOrder firstIFDOffset entries i make model where
    "getUint16 view tiffStart False = Inr byteOrder"
    and "getUint16 view (tiffStart + 2) (byteOrder = 0x4949) = Inr 0x002A"
    and "getUint32 view (tiffStart + 4) (byteOrder = 0x4949) = Inr firstIFDOffset"
    and "8 \<le> firstIFDOffset"
    and "getUint16 view (tiffStart + firstIFDOffset) (byteOrder = 0x4949) = Inr entries"
    and "ifdLoop view (tiffStart + firstIFDOffset) tiffStart (byteOrder = 0x4949) entries (0, [], [])
           = Inr (i, make, model)"
    and "composeDevice make model = Some s"
  using assms
  by (auto simp: parseExifChunk_def parseExifChunkTry_def parseTiff_def bindE_def Let_def
      split: sum.splits if_splits prod.splits)


subsection \<open>The marker loop\<close>

lemma scanLoop_Continue:
  "offset < length view \<Longrightarrow> scanStep view offset = Inr (Continue mid)
   \<Longrightarrow> scanLoop view offset = scanLoop view mid"
  by (subst scanLoop.simps) simp

lemma scanLoop_Resolve:
  "offset < length view \<Longrightarrow> scanStep view offset = Inr (Resolve r)
   \<Longrightarrow> scanLoop view offset = Inr r"
  by (subst scanLoop.simps) simp

lemma scanReaches_scanLoop:
  "scanReaches view offset offset' \<Longrightarrow> scanLoop view offset = scanLoop view offset'"
  by (induction rule: scanReaches.induct) (simp_all add: scanLoop_Continue)

lemma getUint8_lengthD: "getUint8 view off = Inr b \<Longrightarrow> off < length view"
  by (auto simp: getUint8_def split: if_splits)


lemma getUint32_lengthD: "getUint32 view off le = Inr n \<Longrightarrow> off + 4 \<le> length view"
  by (auto simp: getUint32_def split: if_splits)


lemma scanStep_exif:
  assumes "getUint8 view offset = Inr 0xFF" and "getUint8 view (offset + 1) = Inr 0xE1"
    and "getUint32 view (offset + 4) False = Inr 0x45786966"
  shows "scanStep view offset = Inr (Resolve (parseExifChunk view (offset + 10)))"
proof -
  from assms(3) have "offset + 2 + 2 \<le> length view" by (auto dest: getUint32_lengthD)
  then obtain n where "getUint16 view (offset + 2) False = Inr n"
    by (simp add: getUint16_def)
  with assms show ?thesis by (simp add: scanStep_def bindE_def)
qed

lemma scanStep_other_app1:
  assumes "getUint8 view offset = Inr 0xFF" and "getUint8 view (offset + 1) = Inr 0xE1"
    and "getUint16 view (offset + 2) False = Inr segmentLength"
    and "getUint32 view (offset + 4) False = Inr signature"
    and "signature \<noteq> 0x45786966"
  shows "scanStep view offset = Inr (Continue (offset + 2 + segmentLength))"
  using assms by (simp add: scanStep_def bindE_def)


subsection \<open>Budgets that suffice\<close>

lemma scanLoopFuel_enough:
  "length view \<le> offset + 2 * fuel \<Longrightarrow> scanLoopFuel fuel view offset = Some (scanLoop view offset)"
proof (induction fuel arbitrary: offset)
  case 0
  then show ?case by (subst scanLoop.simps) simp
next
  case (Suc fuel)
  show ?case
  proof (cases "offset < length view")
    case False
    then show ?thesis by (subst scanLoop.simps) simp
  next
    case True
    show ?thesis
    proof (cases "scanStep view offset")
      case (Inl e)
      with True show ?thesis by (subst scanLoop.simps) simp
    next
      case (Inr st)
      show ?thesis
      proof (cases st)
        case (Continue mid)
        with Inr have "offset + 2 \<le> mid" by (auto dest: scanStep_advances)
        with Suc.prems have "length view \<le> mid + 2 * fuel" by simp
        from Suc.IH [OF this] True Inr Continue show ?thesis
          by (subst scanLoop.simps) simp
      qed (use True Inr in \<open>subst scanLoop.simps, simp\<close>)+
    qed
  qed
qed

lemma ifdLoopFuel_Some:
  "ifdLoopFuel fuel view dirStart tiffStart le entries (i, make, model) = Some x
   \<Longrightarrow> ifdLoop view dirStart tiffStart le entries (i, make, model) = x"
proof (induction fuel arbitrary: i make model)
  case 0
  then show ?case by (subst ifdLoop.simps) (auto split: if_splits)
next
  case (Suc fuel)
  show ?case
  proof (cases "i < entries")
    case False
    with Suc.prems show ?thesis by (subst ifdLoop.simps) simp
  next
    case True
    show ?thesis
    proof (cases "ifdStep view dirStart tiffStart le (i, make, model)")
      case (Inl e)
      with True Suc.prems have "x = Inl e" by simp
      with True Inl show ?thesis by (subst ifdLoop.simps) simp
    next
      case (Inr st)
      obtain i2 mk2 md2 where st: "st = (i2, mk2, md2)" by (cases st) auto
      with True Inr Suc.prems have
        "ifdLoopFuel fuel view dirStart tiffStart le entries (i2, mk2, md2) = Some x" by simp
      from Suc.IH [OF this] True Inr st show ?thesis
        by (subst ifdLoop.simps) simp
    qed
  qed
qed

lemma ifdLoopFuel_enough:
  "entries \<le> i + fuel \<Longrightarrow>
   ifdLoopFuel fuel view dirStart tiffStart le entries (i, make, model)
     = Some (ifdLoop view dirStart tiffStart le entries (i, make, model))"
proof (induction fuel arbitrary: i make model)
  case 0
  then show ?case by (subst ifdLoop.simps) simp
next
  case (Suc fuel)
  show ?case
  proof (cases "i < entries")
    case False
    then show ?thesis by (subst ifdLoop.simps) simp
  next
    case True
    show ?thesis
    proof (cases "ifdStep view dirStart tiffStart le (i, make, model)")
      case (Inl e)
      with True show ?thesis by (subst ifdLoop.simps) simp
    next
      case (Inr st)
      obtain i2 mk2 md2 where st: "st = (i2, mk2, md2)" by (cases st) auto
      with Inr have "i2 = i + 1" by (auto dest: ifdStep_counter)
      with Suc.prems have "entries \<le> i2 + fuel" by simp
      from Suc.IH [OF this] True Inr st show ?thesis
        by (subst ifdLoop.simps) simp
    qed
  qed
qed

lemma ifdLoopFuel_needs:
  "ifdLoopFuel fuel view dirStart tiffStart le entries (i, make, model) = Some (Inr r)
   \<Longrightarrow> entries \<le> i + fuel"
proof (induction fuel arbitrary: i make model)
  case 0
  then show ?case by (auto split: if_splits)
next
  case (Suc fuel)
  show ?case
  proof (cases "i < entries")
    case False
    then show ?thesis by simp
  next
    case True
    with Suc.prems obtain st where
      st: "ifdStep view dirStart tiffStart le (i, make, model) = Inr st"
      and rest: "ifdLoopFuel fuel view dirStart tiffStart le entries st = Some (Inr r)"
      by (auto split: sum.splits)
    obtain i2 mk2 md2 where st_eq: "st = (i2, mk2, md2)" by (cases st) auto
    with st have "i2 = i + 1" by (auto dest: ifdStep_counter)
    with Suc.IH [OF rest [unfolded st_eq]] show ?thesis by simp
  qed
qed

declare scanLoopFuel.simps [simp del] ifdLoopFuel.simps [simp del]

lemma byteAt_bound: "byteAt view off < 256"
  using unsigned_less [of "view ! off", where ?'a = nat] by (simp add: byteAt_def)

lemma getUint16_bound: "getUint16 view off le = Inr n \<Longrightarrow> n < 65536"
  using byteAt_bound [of view off] byteAt_bound [of view "off + 1"]
  by (auto simp: getUint16_def split: if_splits)


subsection \<open>Files\<close>

lemma getExifDeviceData_jpeg:
  "ftype file = ''image/jpeg'' \<or> ftype file = ''image/jpg''
   \<Longrightarrow> getExifDeviceData file = onload (take 65536 (content file))"
  by (auto simp: getExifDeviceData_def)

lemma getExifDeviceData_other:
  "ftype file \<noteq> ''image/jpeg'' \<Longrightarrow> ftype file \<noteq> ''image/jpg''
   \<Longrightarrow> getExifDeviceData file = None"
  by (simp add: getExifDeviceData_def)

subsection \<open>String decoding\<close>

lemma strLoop_decodes:
  "strLoop view offset count i str =
     Inr (str @ map (\<lambda>b. fromCharCode (unat b))
                  (takeWhile (\<lambda>b. b \<noteq> 0) (take (count - i) (drop (offset + i) view))))"
proof (induction view offset count i str rule: strLoop.induct)
  case (1 view offset count i str)
  show ?case
  proof (cases "i < count \<and> offset + i < length view")
    case False
    then show ?thesis by (subst strLoop.simps) auto
  next
    case True
    then obtain n where n: "count - i = Suc n" by (cases "count - i") auto
    from True have d: "drop (offset + i) view = view ! (offset + i) # drop (offset + (i + 1)) view"
      by (simp add: Cons_nth_drop_Suc)
    show ?thesis
    proof (cases "view ! (offset + i) = 0")
      case z: True
      with True n d show ?thesis
        by (subst strLoop.simps) (simp add: getUint8_def byteAt_def)
    next
      case nz: False
      then have u: "unat (view ! (offset + i)) \<noteq> 0" by (simp add: unat_eq_0)
      have n': "count - (i + 1) = n" using n by simp
      have g: "getUint8 view (offset + i) = Inr (unat (view ! (offset + i)))"
        using True by (simp add: getUint8_def byteAt_def)
      have "strLoop view offset count i str =
              strLoop view offset count (i + 1) (str @ [fromCharCode (unat (view ! (offset + i)))])"
        using True u g by (subst strLoop.simps) simp
      also have "\<dots> = Inr ((str @ [fromCharCode (unat (view ! (offset + i)))]) @
            map (\<lambda>b. fromCharCode (unat b))
              (takeWhile (\<lambda>b. b \<noteq> 0) (take (count - (i + 1)) (drop (offset + (i + 1)) view))))"
        using "1.IH" True u g by simp
      finally show ?thesis using n n' d nz by simp
    qed
  qed
qed

text \<open>
  C5. An ASCII entry (type 2) whose three fields can be read decodes to the bytes from
  \<open>entryOffset + 8\<close> when \<open>count \<le> 4\<close> and from \<open>tiffStart + valueOffset\<close> when
  \<open>count \<ge> 5\<close>: at most \<open>count\<close> of them, up to the first NUL byte, and only bytes
  that the buffer holds. The copy loop itself never raises \<open>RangeError\<close>, that is, it
  reads no byte at or beyond the buffer length.
\<close>

theorem getStringFromEntry_ascii:
  assumes "getUint16 view (entryOffset + 2) littleEndian = Inr 2"
    and "getUint32 view (entryOffset + 4) littleEndian = Inr count"
    and "getUint32 view (entryOffset + 8) littleEndian = Inr valueOffset"
  shows "getStringFromEntry view entryOffset tiffStart littleEndian =
           Inr (map (\<lambda>b. fromCharCode (unat b))
                  (takeWhile (\<lambda>b. b \<noteq> 0)
                     (take count
                        (drop (if count \<le> 4 then entryOffset + 8 else tiffStart + valueOffset)
                           view))))"
  using assms by (simp add: getStringFromEntry_def bindE_def strLoop_decodes Let_def)

theorem getStringFromEntry_ascii_witness:
  "getUint16 inlineTiff (10 + 2) False = Inr 2
   \<and> getUint32 inlineTiff (10 + 4) False = Inr 4
   \<and> getUint32 inlineTiff (10 + 8) False = Inr 0x41424344
   \<and> getStringFromEntry inlineTiff 10 0 False = Inr ''ABCD''
   \<and> getUint16 inlineTiff (22 + 2) False = Inr 2
   \<and> getUint32 inlineTiff (22 + 4) False = Inr 5
   \<and> getUint32 inlineTiff (22 + 8) False = Inr 34
   \<and> getStringFromEntry inlineTiff 22 0 False = Inr ''EFGHI''
   \<and> getUint16 overrunTiff (10 + 2) False = Inr 2
   \<and> getUint32 overrunTiff (10 + 4) False = Inr 9
   \<and> getUint32 overrunTiff (10 + 8) False = Inr 22
   \<and> getStringFromEntry overrunTiff 10 0 False = Inr ''EFG''"
proof -
  have a1: "getUint16 inlineTiff (10 + 2) False = Inr 2" by code_simp
  have a2: "getUint32 inlineTiff (10 + 4) False = Inr 4" by code_simp
  have a3: "getUint32 inlineTiff (10 + 8) False = Inr 0x41424344" by code_simp
  have b1: "getUint16 inlineTiff (22 + 2) False = Inr 2" by code_simp
  have b2: "getUint32 inlineTiff (22 + 4) False = Inr 5" by code_simp
  have b3: "getUint32 inlineTiff (22 + 8) False = Inr 34" by code_simp
  have c1: "getUint16 overrunTiff (10 + 2) False = Inr 2" by code_simp
  have c2: "getUint32 overrunTiff (10 + 4) False = Inr 9" by code_simp
  have c3: "getUint32 overrunTiff (10 + 8) False = Inr 22" by code_simp
  have a4: "map (\<lambda>b. fromCharCode (unat b)) (takeWhile (\<lambda>b. b \<noteq> 0)
              (take 4 (drop (if (4::nat) \<le> 4 then 10 + 8 else 0 + 0x41424344) inlineTiff))) = ''ABCD''"
    by code_simp
  have b4: "map (\<lambda>b. fromCharCode (unat b)) (takeWhile (\<lambda>b. b \<noteq> 0)
              (take 5 (drop (if (5::nat) \<le> 4 then 22 + 8 else 0 + 34) inlineTiff))) = ''EFGHI''"
    by code_simp
  have c4: "map (\<lambda>b. fromCharCode (unat b)) (takeWhile (\<lambda>b. b \<noteq> 0)
              (take 9 (drop (if (9::nat) \<le> 4 then 10 + 8 else 0 + 22) overrunTiff))) = ''EFG''"
    by code_simp
  note a = getStringFromEntry_ascii [OF a1 a2 a3, of 0, unfolded a4]
  note b = getStringFromEntry_ascii [OF b1 b2 b3, of 0, unfolded b4]
  note c = getStringFromEntry_ascii [OF c1 c2 c3, of 0, unfolded c4]
  from a1 a2 a3 a b1 b2 b3 b c1 c2 c3 c show ?thesis by blast
qed

subsection \<open>Repeated and non-ASCII Make/Model entries\<close>

text \<open>
  C2, as stated, fails: with two Make entries the result comes from the second one. The
  two buffers below differ only in the entry count (1 and 2); the first Make entry
  decodes to \<open>A\<close>, and the second one changes the result to \<open>B\<close>.
\<close>

theorem first_occurrence_counterexample:
  "hasTag twoMakeTiff 8 False 0x010F 0
   \<and> hasTag twoMakeTiff 8 False 0x010F 1
   \<and> getStringFromEntry twoMakeTiff (entryOffsetOf 8 0) 0 False = Inr ''A''
   \<and> parseExifChunk oneMakeTiff 0 = Some ''A''
   \<and> parseExifChunk twoMakeTiff 0 = Some ''B''"
  by code_simp

text \<open>
  C2, amended. When the directory loop completes, the Make string is the one decoded
  from the last entry with tag \<open>0x010F\<close> and the Model string the one decoded from the
  last entry with tag \<open>0x0110\<close> (empty when no entry has the tag): each later entry
  with the same tag overwrites the earlier value.
\<close>

theorem last_occurrence_wins:
  assumes "ifdLoop view dirStart tiffStart le entries (0, [], []) = Inr (i', make', model')"
  shows "(case lastIndex (hasTag view dirStart le 0x010F) entries of
            None \<Rightarrow> Inr []
          | Some j \<Rightarrow> getStringFromEntry view (entryOffsetOf dirStart j) tiffStart le)
           = Inr make'
         \<and> (case lastIndex (hasTag view dirStart le 0x0110) entries of
            None \<Rightarrow> Inr []
          | Some j \<Rightarrow> getStringFromEntry view (entryOffsetOf dirStart j) tiffStart le)
           = Inr model'"
  using ifdLoop_last_make [OF assms] ifdLoop_last_model [OF assms]
  by (simp split: option.splits)

theorem last_occurrence_wins_witness:
  "ifdLoop twoMakeTiff 8 0 False 2 (0, [], []) = Inr (2, ''B'', [])
   \<and> lastIndex (hasTag twoMakeTiff 8 False 0x010F) 2 = Some 1
   \<and> getStringFromEntry twoMakeTiff (entryOffsetOf 8 1) 0 False = Inr ''B''
   \<and> lastIndex (hasTag twoMakeTiff 8 False 0x0110) 2 = None"
proof -
  have run: "ifdLoop twoMakeTiff 8 0 False 2 (0, [], []) = Inr (2, ''B'', [])"
    by code_simp
  have mk: "lastIndex (hasTag twoMakeTiff 8 False 0x010F) 2 = Some 1"
    by code_simp
  have md: "lastIndex (hasTag twoMakeTiff 8 False 0x0110) 2 = None"
    by code_simp
  from last_occurrence_wins [OF run]
  have "getStringFromEntry twoMakeTiff (entryOffsetOf 8 1) 0 False = Inr ''B''"
    by (simp add: mk)
  with run mk md show ?thesis by blast
qed

text \<open>
  C6, as stated, fails: a Make entry whose type is not 2 is not ignored. The two buffers
  below differ only in the entry count (1 and 2). The first entry is an ASCII Make
  \<open>A\<close>; the second has the Make tag and type 3, and with it the result is absent.
\<close>

theorem non_ascii_entry_counterexample:
  "hasTag asciiThenShortMakeTiff 8 False 0x010F 1
   \<and> getUint16 asciiThenShortMakeTiff (entryOffsetOf 8 1 + 2) False = Inr 3
   \<and> parseExifChunk asciiMakeTiff 0 = Some ''A''
   \<and> parseExifChunk asciiThenShortMakeTiff 0 = None"
  by code_simp

text \<open>
  C6, amended. When the directory loop completes, a Make or Model entry whose type is
  not 2 has no bytes decoded: it yields the empty string. The entry is not skipped:
  the empty string is assigned, so when the entry is the last one with its tag the
  Make (or Model) string of the result is empty, whatever an earlier entry with that
  tag held. A non-empty Make or Model string in the result is always the one decoded
  from an entry of that tag whose type is 2.
\<close>

theorem non_ascii_entry_assigns_empty:
  assumes "ifdLoop view dirStart tiffStart le entries (0, [], []) = Inr (i', make', model')"
  shows "(\<forall>j<entries.
            (hasTag view dirStart le 0x010F j \<or> hasTag view dirStart le 0x0110 j)
            \<and> getUint16 view (entryOffsetOf dirStart j + 2) le \<noteq> Inr 2
            \<longrightarrow> getStringFromEntry view (entryOffsetOf dirStart j) tiffStart le = Inr [])
         \<and> (make' \<noteq> [] \<longrightarrow>
              (\<exists>k<entries. hasTag view dirStart le 0x010F k
                 \<and> getUint16 view (entryOffsetOf dirStart k + 2) le = Inr 2
                 \<and> getStringFromEntry view (entryOffsetOf dirStart k) tiffStart le = Inr make'))
         \<and> (model' \<noteq> [] \<longrightarrow>
              (\<exists>k<entries. hasTag view dirStart le 0x0110 k
                 \<and> getUint16 view (entryOffsetOf dirStart k + 2) le = Inr 2
                 \<and> getStringFromEntry view (entryOffsetOf dirStart k) tiffStart le = Inr model'))
         \<and> (\<forall>j. lastIndex (hasTag view dirStart le 0x010F) entries = Some j
                \<and> getUint16 view (entryOffsetOf dirStart j + 2) le \<noteq> Inr 2
              \<longrightarrow> make' = [])
         \<and> (\<forall>j. lastIndex (hasTag view dirStart le 0x0110) entries = Some j
                \<and> getUint16 view (entryOffsetOf dirStart j + 2) le \<noteq> Inr 2
              \<longrightarrow> model' = [])"
proof (intro conjI allI impI)
  fix j
  assume j: "j < entries"
    and e: "(hasTag view dirStart le 0x010F j \<or> hasTag view dirStart le 0x0110 j)
            \<and> getUint16 view (entryOffsetOf dirStart j + 2) le \<noteq> Inr 2"
  from ifdLoop_reads [OF assms _ j] e obtain s where
    "getStringFromEntry view (entryOffsetOf dirStart j) tiffStart le = Inr s"
    by (auto simp: hasTag_def)
  with e show "getStringFromEntry view (entryOffsetOf dirStart j) tiffStart le = Inr []"
    by (auto dest: getStringFromEntry_nonascii)
next
  assume ne: "make' \<noteq> []"
  with ifdLoop_last_make [OF assms] obtain k where
    k: "lastIndex (hasTag view dirStart le 0x010F) entries = Some k"
    and s: "getStringFromEntry view (entryOffsetOf dirStart k) tiffStart le = Inr make'"
    by (auto split: option.splits)
  from k have "k < entries" "hasTag view dirStart le 0x010F k"
    by (simp_all add: lastIndex_Some)
  moreover from s ne have "getUint16 view (entryOffsetOf dirStart k + 2) le = Inr 2"
    by (auto dest: getStringFromEntry_nonascii)
  ultimately show "\<exists>k<entries. hasTag view dirStart le 0x010F k
      \<and> getUint16 view (entryOffsetOf dirStart k + 2) le = Inr 2
      \<and> getStringFromEntry view (entryOffsetOf dirStart k) tiffStart le = Inr make'"
    using s by blast
next
  assume ne: "model' \<noteq> []"
  with ifdLoop_last_model [OF assms] obtain k where
    k: "lastIndex (hasTag view dirStart le 0x0110) entries = Some k"
    and s: "getStringFromEntry view (entryOffsetOf dirStart k) tiffStart le = Inr model'"
    by (auto split: option.splits)
  from k have "k < entries" "hasTag view dirStart le 0x0110 k"
    by (simp_all add: lastIndex_Some)
  moreover from s ne have "getUint16 view (entryOffsetOf dirStart k + 2) le = Inr 2"
    by (auto dest: getStringFromEntry_nonascii)
  ultimately show "\<exists>k<entries. hasTag view dirStart le 0x0110 k
      \<and> getUint16 view (entryOffsetOf dirStart k + 2) le = Inr 2
      \<and> getStringFromEntry view (entryOffsetOf dirStart k) tiffStart le = Inr model'"
    using s by blast
next
  fix j
  assume "lastIndex (hasTag view dirStart le 0x010F) entries = Some j
          \<and> getUint16 view (entryOffsetOf dirStart j + 2) le \<noteq> Inr 2"
  with ifdLoop_last_make [OF assms] show "make' = []"
    by (auto dest: getStringFromEntry_nonascii)
next
  fix j
  assume "lastIndex (hasTag view dirStart le 0x0110) entries = Some j
          \<and> getUint16 view (entryOffsetOf dirStart j + 2) le \<noteq> Inr 2"
  with ifdLoop_last_model [OF assms] show "model' = []"
    by (auto dest: getStringFromEntry_nonascii)
qed

theorem non_ascii_entry_assigns_empty_witness:
  "ifdLoop asciiThenShortMakeTiff 8 0 False 2 (0, [], []) = Inr (2, [], [])
   \<and> getStringFromEntry asciiThenShortMakeTiff (entryOffsetOf 8 0) 0 False = Inr ''A''
   \<and> lastIndex (hasTag asciiThenShortMakeTiff 8 False 0x010F) 2 = Some 1
   \<and> getUint16 asciiThenShortMakeTiff (entryOffsetOf 8 1 + 2) False = Inr 3
   \<and> getStringFromEntry asciiThenShortMakeTiff (entryOffsetOf 8 1) 0 False = Inr []
   \<and> ifdLoop shortMakeTiff 8 0 False 2 (0, [], []) = Inr (2, [], ''X1'')
   \<and> (\<exists>k<2. hasTag shortMakeTiff 8 False 0x0110 k
          \<and> getUint16 shortMakeTiff (entryOffsetOf 8 k + 2) False = Inr 2
          \<and> getStringFromEntry shortMakeTiff (entryOffsetOf 8 k) 0 False = Inr ''X1'')
   \<and> parseExifChunk shortMakeTiff 0 = Some ''X1''"
proof -
  have first: "getStringFromEntry asciiThenShortMakeTiff (entryOffsetOf 8 0) 0 False = Inr ''A''"
    by code_simp
  have last: "lastIndex (hasTag asciiThenShortMakeTiff 8 False 0x010F) 2 = Some 1"
    by code_simp
  have tag: "hasTag asciiThenShortMakeTiff 8 False 0x010F 1"
    by code_simp
  have ty: "getUint16 asciiThenShortMakeTiff (entryOffsetOf 8 1 + 2) False = Inr 3"
    by code_simp
  have "\<not> isl (ifdLoop asciiThenShortMakeTiff 8 0 False 2 (0, [], []))"
    by code_simp
  then obtain i' make' model' where
    run: "ifdLoop asciiThenShortMakeTiff 8 0 False 2 (0, [], []) = Inr (i', make', model')"
    by (cases "ifdLoop asciiThenShortMakeTiff 8 0 False 2 (0, [], [])") auto
  have cnt: "i' = 2" using run by (rule ifdLoop_counter) simp
  have md: "lastIndex (hasTag asciiThenShortMakeTiff 8 False 0x0110) 2 = None"
    by code_simp
  note inst = non_ascii_entry_assigns_empty [OF run]
  from inst last ty have mk: "make' = []" by simp
  from inst have "model' \<noteq> [] \<longrightarrow> (\<exists>k<2. hasTag asciiThenShortMakeTiff 8 False 0x0110 k)"
    by blast
  moreover have "\<not> (\<exists>k<2. hasTag asciiThenShortMakeTiff 8 False 0x0110 k)"
    using md by (simp add: lastIndex_None)
  ultimately have mo: "model' = []" by blast
  from inst tag ty
  have dec: "getStringFromEntry asciiThenShortMakeTiff (entryOffsetOf 8 1) 0 False = Inr []"
    by simp
  have run2: "ifdLoop shortMakeTiff 8 0 False 2 (0, [], []) = Inr (2, [], ''X1'')"
    by code_simp
  have res: "parseExifChunk shortMakeTiff 0 = Some ''X1''"
    by code_simp
  from non_ascii_entry_assigns_empty [OF run2]
  have ex: "\<exists>k<2. hasTag shortMakeTiff 8 False 0x0110 k
          \<and> getUint16 shortMakeTiff (entryOffsetOf 8 k + 2) False = Inr 2
          \<and> getStringFromEntry shortMakeTiff (entryOffsetOf 8 k) 0 False = Inr ''X1''"
    by simp
  from run cnt mk mo first last ty dec run2 ex res show ?thesis by simp
qed

subsection \<open>Byte order and header checks\<close>

text \<open>
  C1, as stated, fails: the byte-order mark of this buffer is \<open>0x0000\<close>, neither
  \<open>II\<close> nor \<open>MM\<close>, and the reader returns the Model string of its directory.
\<close>

theorem unknown_byte_order_counterexample:
  "getUint16 noOrderTiff 0 False = Inr 0 \<and> parseExifChunk noOrderTiff 0 = Some ''X1''"
  by code_simp

text \<open>
  C1, amended. A byte-order mark that can be read and is not \<open>0x4949\<close> selects
  big-endian reads, whether it is \<open>0x4D4D\<close> or any other value: the result of the
  reader is the result of parsing the header and the directory big-endian, and it is
  absent only when that parse is absent or raises.
\<close>

theorem byte_order_default_big_endian:
  assumes "getUint16 view tiffStart False = Inr byteOrder"
    and "byteOrder \<noteq> 0x4949"
  shows "parseExifChunk view tiffStart =
           (case parseTiff view tiffStart False of Inl e \<Rightarrow> None | Inr r \<Rightarrow> r)"
  using assms by (simp add: parseExifChunk_def parseExifChunkTry_def bindE_def)

theorem byte_order_default_big_endian_witness:
  "getUint16 noOrderTiff 0 False = Inr 0
   \<and> (0::nat) \<noteq> 0x4949
   \<and> parseTiff noOrderTiff 0 False = Inr (Some ''X1'')
   \<and> parseExifChunk noOrderTiff 0 = Some ''X1''"
proof -
  have h1: "getUint16 noOrderTiff 0 False = Inr 0" by code_simp
  have h2: "(0::nat) \<noteq> 0x4949" by simp
  have p: "parseTiff noOrderTiff 0 False = Inr (Some ''X1'')" by code_simp
  from byte_order_default_big_endian [OF h1 h2]
  have "parseExifChunk noOrderTiff 0 = Some ''X1''" by (simp add: p)
  with h1 h2 p show ?thesis by blast
qed

text \<open>
  C7. A present result needs the magic number \<open>0x002A\<close> in the two bytes after the
  byte-order mark and a first-IFD offset of at least 8, both read with the byte order
  that the mark selected (little-endian for \<open>0x4949\<close>, big-endian otherwise); a buffer
  that violates either condition gives the absent result.
\<close>

theorem header_checks:
  assumes "parseExifChunk view tiffStart \<noteq> None"
  shows "\<exists>byteOrder firstIFDOffset.
           getUint16 view tiffStart False = Inr byteOrder
           \<and> getUint16 view (tiffStart + 2) (byteOrder = 0x4949) = Inr 0x002A
           \<and> getUint32 view (tiffStart + 4) (byteOrder = 0x4949) = Inr firstIFDOffset
           \<and> 8 \<le> firstIFDOffset"
proof -
  from assms obtain s where "parseExifChunk view tiffStart = Some s" by auto
  then show ?thesis by (rule parseExifChunk_SomeD) blast
qed

theorem header_checks_witness:
  "parseExifChunk canonJpeg 12 \<noteq> None
   \<and> getUint16 canonJpeg 12 False = Inr 0x4D4D
   \<and> getUint16 canonJpeg (12 + 2) False = Inr 0x002A
   \<and> getUint32 canonJpeg (12 + 4) False = Inr 8
   \<and> getUint16 badMagicTiff 0 False = Inr 0x4D4D
   \<and> getUint16 badMagicTiff (0 + 2) False = Inr 0x002B
   \<and> parseExifChunk badMagicTiff 0 = None
   \<and> getUint16 lowOffsetTiff 0 False = Inr 0x4D4D
   \<and> getUint16 lowOffsetTiff (0 + 2) False = Inr 0x002A
   \<and> getUint32 lowOffsetTiff (0 + 4) False = Inr 7
   \<and> parseExifChunk lowOffsetTiff 0 = None"
proof -
  have c0: "parseExifChunk canonJpeg 12 \<noteq> None" by code_simp
  have c1: "getUint16 canonJpeg 12 False = Inr 0x4D4D" by code_simp
  have b1: "getUint16 badMagicTiff 0 False = Inr 0x4D4D" by code_simp
  have b2: "getUint16 badMagicTiff (0 + 2) False = Inr 0x002B" by code_simp
  have l1: "getUint16 lowOffsetTiff 0 False = Inr 0x4D4D" by code_simp
  have l2: "getUint16 lowOffsetTiff (0 + 2) False = Inr 0x002A" by code_simp
  have l3: "getUint32 lowOffsetTiff (0 + 4) False = Inr 7" by code_simp
  from header_checks [OF c0] c1
  have c: "getUint16 canonJpeg (12 + 2) False = Inr 0x002A
           \<and> (\<exists>firstIFDOffset. getUint32 canonJpeg (12 + 4) False = Inr firstIFDOffset
                \<and> 8 \<le> firstIFDOffset)"
    by auto
  have c3: "getUint32 canonJpeg (12 + 4) False = Inr 8" by code_simp
  have b: "parseExifChunk badMagicTiff 0 = None"
  proof (rule ccontr)
    assume "parseExifChunk badMagicTiff 0 \<noteq> None"
    from header_checks [OF this] b1 b2 show False by auto
  qed
  have l: "parseExifChunk lowOffsetTiff 0 = None"
  proof (rule ccontr)
    assume "parseExifChunk lowOffsetTiff 0 \<noteq> None"
    from header_checks [OF this] l1 l2 l3 show False by auto
  qed
  from c0 c1 c c3 b1 b2 b l1 l2 l3 l show ?thesis by blast
qed

subsection \<open>Composition of the result\<close>

text \<open>
  C4. When the header is valid and the directory loop ends with a non-empty Make or
  Model string, the result is present and composed from the two trimmed strings: the
  trimmed Model alone if it starts with the trimmed Make (in particular if the Make is
  empty), and otherwise the trimmed Make, one space and the trimmed Model, or the
  trimmed Make alone if the trimmed Model is empty.
\<close>

theorem composition_rule:
  assumes "getUint16 view tiffStart False = Inr byteOrder"
    and "getUint16 view (tiffStart + 2) (byteOrder = 0x4949) = Inr 0x002A"
    and "getUint32 view (tiffStart + 4) (byteOrder = 0x4949) = Inr firstIFDOffset"
    and "8 \<le> firstIFDOffset"
    and "getUint16 view (tiffStart + firstIFDOffset) (byteOrder = 0x4949) = Inr entries"
    and "ifdLoop view (tiffStart + firstIFDOffset) tiffStart (byteOrder = 0x4949) entries (0, [], [])
           = Inr (i, make, model)"
    and "make \<noteq> [] \<or> model \<noteq> []"
  shows "parseExifChunk view tiffStart =
           Some (if startsWith (trim model) (trim make) then trim model
                 else if trim model = [] then trim make
                 else trim make @ '' '' @ trim model)"
  using parseExifChunk_eq [OF assms(1-6)] composeDevice_rule [OF assms(7)] by simp

theorem composition_rule_witness:
  "getUint16 canonJpeg 12 False = Inr 0x4D4D
   \<and> ifdLoop canonJpeg (12 + 8) 12 ((0x4D4D::nat) = 0x4949) 2 (0, [], [])
        = Inr (2, ''Canon'', ''Canon EOS R5'')
   \<and> parseExifChunk canonJpeg 12 = Some ''Canon EOS R5''
   \<and> onload canonJpeg = Some ''Canon EOS R5''
   \<and> getUint16 appleJpeg 12 False = Inr 0x4949
   \<and> ifdLoop appleJpeg (12 + 8) 12 ((0x4949::nat) = 0x4949) 2 (0, [], [])
        = Inr (2, ''Apple'', ''iPhone 14 Pro'')
   \<and> parseExifChunk appleJpeg 12 = Some ''Apple iPhone 14 Pro''
   \<and> onload appleJpeg = Some ''Apple iPhone 14 Pro''"
proof -
  have c1: "getUint16 canonJpeg 12 False = Inr 0x4D4D" by code_simp
  have c2: "getUint16 canonJpeg (12 + 2) ((0x4D4D::nat) = 0x4949) = Inr 0x002A" by code_simp
  have c3: "getUint32 canonJpeg (12 + 4) ((0x4D4D::nat) = 0x4949) = Inr 8" by code_simp
  have c4: "(8::nat) \<le> 8" by simp
  have c5: "getUint16 canonJpeg (12 + 8) ((0x4D4D::nat) = 0x4949) = Inr 2" by code_simp
  have c6: "ifdLoop canonJpeg (12 + 8) 12 ((0x4D4D::nat) = 0x4949) 2 (0, [], [])
              = Inr (2, ''Canon'', ''Canon EOS R5'')" by code_simp
  have c7: "''Canon'' \<noteq> [] \<or> ''Canon EOS R5'' \<noteq> []" by simp
  have c8: "(if startsWith (trim ''Canon EOS R5'') (trim ''Canon'') then trim ''Canon EOS R5''
             else if trim ''Canon EOS R5'' = [] then trim ''Canon''
             else trim ''Canon'' @ '' '' @ trim ''Canon EOS R5'') = ''Canon EOS R5''"
    by code_simp
  have c9: "onload canonJpeg = Some ''Canon EOS R5''" by code_simp
  have a1: "getUint16 appleJpeg 12 False = Inr 0x4949" by code_simp
  have a2: "getUint16 appleJpeg (12 + 2) ((0x4949::nat) = 0x4949) = Inr 0x002A" by code_simp
  have a3: "getUint32 appleJpeg (12 + 4) ((0x4949::nat) = 0x4949) = Inr 8" by code_simp
  have a5: "getUint16 appleJpeg (12 + 8) ((0x4949::nat) = 0x4949) = Inr 2" by code_simp
  have a6: "ifdLoop appleJpeg (12 + 8) 12 ((0x4949::nat) = 0x4949) 2 (0, [], [])
              = Inr (2, ''Apple'', ''iPhone 14 Pro'')" by code_simp
  have a7: "''Apple'' \<noteq> [] \<or> ''iPhone 14 Pro'' \<noteq> []" by simp
  have a8: "(if startsWith (trim ''iPhone 14 Pro'') (trim ''Apple'') then trim ''iPhone 14 Pro''
             else if trim ''iPhone 14 Pro'' = [] then trim ''Apple''
             else trim ''Apple'' @ '' '' @ trim ''iPhone 14 Pro'') = ''Apple iPhone 14 Pro''"
    by code_simp
  have a9: "onload appleJpeg = Some ''Apple iPhone 14 Pro''" by code_simp
  note c = composition_rule [OF c1 c2 c3 c4 c5 c6 c7, unfolded c8]
  note a = composition_rule [OF a1 a2 a3 c4 a5 a6 a7, unfolded a8]
  from c1 c6 c c9 a1 a6 a a9 show ?thesis by blast
qed

text \<open>
  C10. Presence is decided on the untrimmed strings: when the header is valid and the
  directory loop ends with a non-empty Make or Model string, and both strings trim to
  the empty string, the result is present and is the empty string.
\<close>

theorem whitespace_only_is_present:
  assumes "getUint16 view tiffStart False = Inr byteOrder"
    and "getUint16 view (tiffStart + 2) (byteOrder = 0x4949) = Inr 0x002A"
    and "getUint32 view (tiffStart + 4) (byteOrder = 0x4949) = Inr firstIFDOffset"
    and "8 \<le> firstIFDOffset"
    and "getUint16 view (tiffStart + firstIFDOffset) (byteOrder = 0x4949) = Inr entries"
    and "ifdLoop view (tiffStart + firstIFDOffset) tiffStart (byteOrder = 0x4949) entries (0, [], [])
           = Inr (i, make, model)"
    and "make \<noteq> [] \<or> model \<noteq> []"
    and "trim make = []" and "trim model = []"
  shows "parseExifChunk view tiffStart = Some []"
  using parseExifChunk_eq [OF assms(1-6)] assms(7-9)
  by (simp add: composeDevice_def startsWith_def)

theorem whitespace_only_is_present_witness:
  "getUint16 blankMakeTiff 0 False = Inr 0x4949
   \<and> ifdLoop blankMakeTiff (0 + 8) 0 ((0x4949::nat) = 0x4949) 1 (0, [], []) = Inr (1, '' '', [])
   \<and> trim '' '' = []
   \<and> parseExifChunk blankMakeTiff 0 = Some []"
proof -
  have h1: "getUint16 blankMakeTiff 0 False = Inr 0x4949" by code_simp
  have h2: "getUint16 blankMakeTiff (0 + 2) ((0x4949::nat) = 0x4949) = Inr 0x002A" by code_simp
  have h3: "getUint32 blankMakeTiff (0 + 4) ((0x4949::nat) = 0x4949) = Inr 8" by code_simp
  have h4: "(8::nat) \<le> 8" by simp
  have h5: "getUint16 blankMakeTiff (0 + 8) ((0x4949::nat) = 0x4949) = Inr 1" by code_simp
  have h6: "ifdLoop blankMakeTiff (0 + 8) 0 ((0x4949::nat) = 0x4949) 1 (0, [], [])
              = Inr (1, '' '', [])" by code_simp
  have h7: "'' '' \<noteq> [] \<or> ([]::string) \<noteq> []" by simp
  have h8: "trim '' '' = []" by code_simp
  have h9: "trim [] = []" by code_simp
  note r = whitespace_only_is_present [OF h1 h2 h3 h4 h5 h6 h7 h8 h9]
  from h1 h6 h8 r show ?thesis by blast
qed

subsection \<open>Marker scanning\<close>

text \<open>
  C8. In a buffer that begins with SOI, let the marker loop come to an APP1 segment
  of length \<open>segmentLength\<close> whose signature is not \<open>Exif\<close>, and let an APP1 segment with
  the \<open>Exif\<close> signature start at \<open>offset + 2 + segmentLength\<close>. Then the loop skips the
  first segment by \<open>2 + segmentLength\<close> and the result is that of the directory reader
  at the second segment's offset plus 10.
\<close>

theorem skips_non_exif_app1:
  assumes "getUint16 view 0 False = Inr 0xFFD8"
    and "scanReaches view 2 offset"
    and "getUint8 view offset = Inr 0xFF"
    and "getUint8 view (offset + 1) = Inr 0xE1"
    and "getUint16 view (offset + 2) False = Inr segmentLength"
    and "getUint32 view (offset + 4) False = Inr signature"
    and "signature \<noteq> 0x45786966"
    and "getUint8 view (offset + 2 + segmentLength) = Inr 0xFF"
    and "getUint8 view (offset + 2 + segmentLength + 1) = Inr 0xE1"
    and "getUint32 view (offset + 2 + segmentLength + 4) False = Inr 0x45786966"
  shows "scanStep view offset = Inr (Continue (offset + 2 + segmentLength))
         \<and> scanStep view (offset + 2 + segmentLength)
             = Inr (Resolve (parseExifChunk view (offset + 2 + segmentLength + 10)))
         \<and> onload view = parseExifChunk view (offset + 2 + segmentLength + 10)"
proof -
  let ?next = "offset + 2 + segmentLength"
  have s1: "scanStep view offset = Inr (Continue ?next)"
    using assms(3-7) by (rule scanStep_other_app1)
  have s2: "scanStep view ?next = Inr (Resolve (parseExifChunk view (?next + 10)))"
    using assms(8-10) by (rule scanStep_exif)
  have lt1: "offset < length view" using assms(3) by (rule getUint8_lengthD)
  have lt2: "?next < length view" using assms(8) by (rule getUint8_lengthD)
  have "scanLoop view 2 = scanLoop view offset"
    using assms(2) by (rule scanReaches_scanLoop)
  also have "\<dots> = scanLoop view ?next"
    using lt1 s1 by (rule scanLoop_Continue)
  also have "\<dots> = Inr (parseExifChunk view (?next + 10))"
    using lt2 s2 by (rule scanLoop_Resolve)
  finally have "onload view = parseExifChunk view (?next + 10)"
    using assms(1) by (simp add: onload_def onloadTry_def bindE_def)
  with s1 s2 show ?thesis by simp
qed

theorem skips_non_exif_app1_witness:
  "getUint16 xmpThenExifJpeg 0 False = Inr 0xFFD8
   \<and> getUint16 xmpThenExifJpeg (2 + 2) False = Inr 11
   \<and> getUint32 xmpThenExifJpeg (2 + 4) False = Inr 0x68747470
   \<and> scanStep xmpThenExifJpeg 2 = Inr (Continue (2 + 2 + 11))
   \<and> onload xmpThenExifJpeg = parseExifChunk xmpThenExifJpeg (2 + 2 + 11 + 10)
   \<and> parseExifChunk xmpThenExifJpeg (2 + 2 + 11 + 10) = Some ''X1''
   \<and> scanReaches app0XmpExifJpeg 2 8
   \<and> scanStep app0XmpExifJpeg 8 = Inr (Continue (8 + 2 + 11))
   \<and> onload app0XmpExifJpeg = parseExifChunk app0XmpExifJpeg (8 + 2 + 11 + 10)
   \<and> parseExifChunk app0XmpExifJpeg (8 + 2 + 11 + 10) = Some ''X1''"
proof -
  have x1: "getUint16 xmpThenExifJpeg 0 False = Inr 0xFFD8" by code_simp
  have x2: "scanReaches xmpThenExifJpeg 2 2" by (rule scanReaches.start)
  have x3: "getUint8 xmpThenExifJpeg 2 = Inr 0xFF" by code_simp
  have x4: "getUint8 xmpThenExifJpeg (2 + 1) = Inr 0xE1" by code_simp
  have x5: "getUint16 xmpThenExifJpeg (2 + 2) False = Inr 11" by code_simp
  have x6: "getUint32 xmpThenExifJpeg (2 + 4) False = Inr 0x68747470" by code_simp
  have ne: "(0x68747470::nat) \<noteq> 0x45786966" by simp
  have x8: "getUint8 xmpThenExifJpeg (2 + 2 + 11) = Inr 0xFF" by code_simp
  have x9: "getUint8 xmpThenExifJpeg (2 + 2 + 11 + 1) = Inr 0xE1" by code_simp
  have x10: "getUint32 xmpThenExifJpeg (2 + 2 + 11 + 4) False = Inr 0x45786966" by code_simp
  have xr: "parseExifChunk xmpThenExifJpeg (2 + 2 + 11 + 10) = Some ''X1''" by code_simp
  note x = skips_non_exif_app1 [OF x1 x2 x3 x4 x5 x6 ne x8 x9 x10]
  have a1: "getUint16 app0XmpExifJpeg 0 False = Inr 0xFFD8" by code_simp
  have a0: "2 < length app0XmpExifJpeg" by code_simp
  have a0': "scanStep app0XmpExifJpeg 2 = Inr (Continue 8)" by code_simp
  have a2: "scanReaches app0XmpExifJpeg 2 8"
    using a0 a0' scanReaches.start by (rule scanReaches.step)
  have a3: "getUint8 app0XmpExifJpeg 8 = Inr 0xFF" by code_simp
  have a4: "getUint8 app0XmpExifJpeg (8 + 1) = Inr 0xE1" by code_simp
  have a5: "getUint16 app0XmpExifJpeg (8 + 2) False = Inr 11" by code_simp
  have a6: "getUint32 app0XmpExifJpeg (8 + 4) False = Inr 0x68747470" by code_simp
  have a8: "getUint8 app0XmpExifJpeg (8 + 2 + 11) = Inr 0xFF" by code_simp
  have a9: "getUint8 app0XmpExifJpeg (8 + 2 + 11 + 1) = Inr 0xE1" by code_simp
  have a10: "getUint32 app0XmpExifJpeg (8 + 2 + 11 + 4) False = Inr 0x45786966" by code_simp
  have ar: "parseExifChunk app0XmpExifJpeg (8 + 2 + 11 + 10) = Some ''X1''" by code_simp
  note a = skips_non_exif_app1 [OF a1 a2 a3 a4 a5 a6 ne a8 a9 a10]
  from x1 x5 x6 x xr a2 a ar show ?thesis by blast
qed

subsection \<open>Termination\<close>

text \<open>
  C9. Every pass of the marker loop that goes on moves the offset forward by at least
  2, so the loop started at offset 2 ends within \<open>length view div 2\<close> passes; the entry
  count is below \<open>2^16\<close>, the directory loop ends within that many passes, and when it
  completes it has made exactly that many: the counter is at the entry count and no
  smaller budget is enough. (All loops are total functions of the buffer by their
  termination proofs.)
\<close>

theorem parse_terminates:
  "(scanStep view offset = Inr (Continue offset') \<longrightarrow> offset + 2 \<le> offset')
   \<and> scanLoopFuel (length view div 2) view 2 = Some (scanLoop view 2)
   \<and> (getUint16 view dirStart le = Inr entries \<longrightarrow> entries < 65536)
   \<and> ifdLoopFuel entries view dirStart tiffStart le entries (0, [], [])
       = Some (ifdLoop view dirStart tiffStart le entries (0, [], []))
   \<and> (ifdLoop view dirStart tiffStart le entries (0, [], []) = Inr (i, make, model) \<longrightarrow>
        i = entries
        \<and> (\<forall>fuel<entries.
              ifdLoopFuel fuel view dirStart tiffStart le entries (0, [], []) = None))"
proof (intro conjI impI allI)
  assume "scanStep view offset = Inr (Continue offset')"
  then show "offset + 2 \<le> offset'" by (rule scanStep_advances)
next
  have "length view \<le> 2 + 2 * (length view div 2)" by simp
  then show "scanLoopFuel (length view div 2) view 2 = Some (scanLoop view 2)"
    by (rule scanLoopFuel_enough)
next
  assume "getUint16 view dirStart le = Inr entries"
  then show "entries < 65536" by (rule getUint16_bound)
next
  show "ifdLoopFuel entries view dirStart tiffStart le entries (0, [], [])
          = Some (ifdLoop view dirStart tiffStart le entries (0, [], []))"
    by (rule ifdLoopFuel_enough) simp
next
  assume "ifdLoop view dirStart tiffStart le entries (0, [], []) = Inr (i, make, model)"
  then show "i = entries" by (rule ifdLoop_counter) simp
next
  fix fuel
  assume run: "ifdLoop view dirStart tiffStart le entries (0, [], []) = Inr (i, make, model)"
    and fuel: "fuel < entries"
  show "ifdLoopFuel fuel view dirStart tiffStart le entries (0, [], []) = None"
  proof (rule ccontr)
    assume "ifdLoopFuel fuel view dirStart tiffStart le entries (0, [], []) \<noteq> None"
    then obtain x where
      x: "ifdLoopFuel fuel view dirStart tiffStart le entries (0, [], []) = Some x" by auto
    from ifdLoopFuel_Some [OF x] run have "x = Inr (i, make, model)" by simp
    with x have "ifdLoopFuel fuel view dirStart tiffStart le entries (0, [], [])
                   = Some (Inr (i, make, model))" by (simp only:)
    then have "entries \<le> 0 + fuel" by (rule ifdLoopFuel_needs)
    with fuel show False by simp
  qed
qed

theorem parse_terminates_witness:
  "scanStep xmpThenExifJpeg 2 = Inr (Continue 15)
   \<and> (2::nat) + 2 \<le> 15
   \<and> scanLoopFuel (length xmpThenExifJpeg div 2) xmpThenExifJpeg 2 = Some (Inr (Some ''X1''))
   \<and> getUint16 canonJpeg 20 False = Inr 2
   \<and> ifdLoop canonJpeg 20 12 False 2 (0, [], []) = Inr (2, ''Canon'', ''Canon EOS R5'')
   \<and> ifdLoopFuel 2 canonJpeg 20 12 False 2 (0, [], [])
       = Some (Inr (2, ''Canon'', ''Canon EOS R5''))
   \<and> ifdLoopFuel 1 canonJpeg 20 12 False 2 (0, [], []) = None"
proof -
  have st: "scanStep xmpThenExifJpeg 2 = Inr (Continue 15)" by code_simp
  have sl: "scanLoop xmpThenExifJpeg 2 = Inr (Some ''X1'')" by code_simp
  have n: "getUint16 canonJpeg 20 False = Inr 2" by code_simp
  have run: "ifdLoop canonJpeg 20 12 False 2 (0, [], []) = Inr (2, ''Canon'', ''Canon EOS R5'')"
    by code_simp
  note x = parse_terminates [where view = xmpThenExifJpeg and offset = 2 and offset' = 15,
      THEN conjunct1]
  note y = parse_terminates [where view = xmpThenExifJpeg, THEN conjunct2, THEN conjunct1]
  note z = parse_terminates [where view = canonJpeg and dirStart = 20 and le = False
      and entries = 2 and tiffStart = 12 and i = 2 and make = "''Canon''"
      and model = "''Canon EOS R5''", THEN conjunct2, THEN conjunct2, THEN conjunct2]
  from x st have a: "(2::nat) + 2 \<le> 15" by simp
  from y sl have b: "scanLoopFuel (length xmpThenExifJpeg div 2) xmpThenExifJpeg 2
      = Some (Inr (Some ''X1''))" by simp
  from z run have c: "ifdLoopFuel 2 canonJpeg 20 12 False 2 (0, [], [])
       = Some (Inr (2, ''Canon'', ''Canon EOS R5''))" by simp
  from z run have less: "\<forall>fuel<2. ifdLoopFuel fuel canonJpeg 20 12 False 2 (0, [], []) = None"
    by simp
  from less [rule_format, of 1] have d: "ifdLoopFuel 1 canonJpeg 20 12 False 2 (0, [], []) = None"
    by simp
  from st a b n run c d show ?thesis by blast
qed

subsection \<open>Faults\<close>












end
